theory Spec2Isabelle
  imports Complex_Main
begin

section \<open>The roulette wheel of RandomDrawRoom.tsx\<close>

text \<open>
  The component \<open>RouletteWheel\<close> keeps three React state variables (\<open>rotation\<close>,
  \<open>spinning\<close>, \<open>selectedId\<close>) and exposes the handle \<open>{spinTo, reset}\<close>. Its
  completion runs through two browser queues: the callback given to
  \<open>requestAnimationFrame\<close> and the \<open>transitionend\<close> listener \<open>onEnd\<close> that this
  callback registers on the wheel element. Both queues are part of the state below, and
  the browser's two events (a frame, the end of a transition) are steps of the model.

  JavaScript numbers are IEEE 754 doubles. The arithmetic of lines 53 and 72 to 76 is
  modelled twice. The functions \<open>sliceAngle_d\<close>, \<open>winnerAngle_d\<close>, \<open>current_d\<close>,
  \<open>targetAbs_d\<close>, \<open>deltaForward_d\<close> and \<open>nextRotation_d\<close> compute in doubles: every
  operation is the exact result rounded to the nearest double, ties to even, and what the
  code computes is what they compute. The functions without the suffix read the same
  lines in exact rational arithmetic; they are what the doubles approximate, and they
  agree with the doubles wherever no operation rounds, as in the runs of four items
  below. The state machine stores exact rationals. The spin count is an integer, as the
  callers pass it. Every operation is applied to the committed state of the component,
  one after the other, and the props do not change during a run.
\<close>

subsection \<open>Numbers: the remainder operator of JavaScript\<close>

text \<open>\<open>a % b\<close> truncates the quotient toward zero, so the result has the sign of \<open>a\<close>.
  The only divisor in the program is the literal 360.\<close>

definition trunc :: "rat \<Rightarrow> int" where
  "trunc x = (if 0 \<le> x then \<lfloor>x\<rfloor> else \<lceil>x\<rceil>)"

definition js_rem :: "rat \<Rightarrow> rat \<Rightarrow> rat" where
  "js_rem a b = a - b * of_int (trunc (a / b))"

text \<open>The mathematical residue modulo 360, in \<open>[0, 360)\<close>: the \<open>mod 360\<close> of the
  specification.\<close>

definition mod360 :: "rat \<Rightarrow> rat" where
  "mod360 x = x - 360 * of_int \<lfloor>x / 360\<rfloor>"

subsection \<open>Numbers: IEEE 754 doubles\<close>

text \<open>
  A finite double is a rational \<open>m * 2 ^ e\<close> with \<open>\<bar>m\<bar> < 2 ^ 53\<close> and
  \<open>- 1074 \<le> e\<close>. \<open>rne\<close> rounds a rational to the nearest such number, ties to the even
  significand: the spacing \<open>ulp x\<close> is \<open>2 ^ (e - 52)\<close> for \<open>2 ^ e \<le> \<bar>x\<bar> < 2 ^ (e + 1)\<close>,
  and \<open>2 ^ - 1074\<close> below \<open>2 ^ - 1022\<close>. \<open>bitlen\<close> counts the binary digits of a positive
  integer, and \<open>ilog2 x\<close> is the \<open>e\<close> with \<open>2 ^ e \<le> x < 2 ^ (e + 1)\<close> for \<open>0 < x\<close>.
\<close>

function bitlen :: "int \<Rightarrow> nat" where
  "bitlen n = (if n \<le> 0 then 0 else Suc (bitlen (n div 2)))"
  by pat_completeness auto
termination
  by (relation "measure nat") auto

declare bitlen.simps [simp del]

definition ilog2 :: "rat \<Rightarrow> int" where
  "ilog2 x = (if 1 \<le> x then int (bitlen \<lfloor>x\<rfloor>) - 1
              else - int (bitlen (\<lceil>1 / x\<rceil> - 1)))"

definition rhe :: "rat \<Rightarrow> int" where
  "rhe x = (let f = \<lfloor>x\<rfloor>; d = x - of_int f in
             if d < 1 / 2 then f
             else if 1 / 2 < d then f + 1
             else if even f then f else f + 1)"

definition ulp :: "rat \<Rightarrow> rat" where
  "ulp x = power_int 2 (max (ilog2 \<bar>x\<bar>) (- 1022) - 52)"

definition rne :: "rat \<Rightarrow> rat" where
  "rne x = (if x = 0 then 0 else let u = ulp x in of_int (rhe (x / u)) * u)"

text \<open>
  A number is a finite double or not finite: \<open>None\<close> stands for \<open>Infinity\<close>,
  \<open>-Infinity\<close> and \<open>NaN\<close> alike, which no operation of the program turns back into a
  finite value. A rounded result of magnitude \<open>2 ^ 1024\<close> or more overflows. The sign of
  zero is not kept; no operation of the program depends on it.
\<close>

type_synonym number = "rat option"

definition d_round :: "rat \<Rightarrow> number" where
  "d_round x = (let y = rne x in
                 if y \<noteq> 0 \<and> 1024 \<le> ilog2 \<bar>y\<bar> then None else Some y)"

text \<open>\<open>+\<close>, \<open>-\<close>, \<open>*\<close> and \<open>/\<close> round the exact result. \<open>x % 360\<close> is exact: the
  remainder of a double is a double.\<close>

definition d_add :: "number \<Rightarrow> number \<Rightarrow> number" where
  "d_add a b = (case a of None \<Rightarrow> None | Some x \<Rightarrow>
                  (case b of None \<Rightarrow> None | Some y \<Rightarrow> d_round (x + y)))"

definition d_sub :: "number \<Rightarrow> number \<Rightarrow> number" where
  "d_sub a b = (case a of None \<Rightarrow> None | Some x \<Rightarrow>
                  (case b of None \<Rightarrow> None | Some y \<Rightarrow> d_round (x - y)))"

definition d_mul :: "number \<Rightarrow> number \<Rightarrow> number" where
  "d_mul a b = (case a of None \<Rightarrow> None | Some x \<Rightarrow>
                  (case b of None \<Rightarrow> None | Some y \<Rightarrow> d_round (x * y)))"

definition d_div :: "number \<Rightarrow> number \<Rightarrow> number" where
  "d_div a b = (case a of None \<Rightarrow> None | Some x \<Rightarrow>
                  (case b of None \<Rightarrow> None | Some y \<Rightarrow>
                     if y = 0 then None else d_round (x / y)))"

definition d_rem360 :: "number \<Rightarrow> number" where
  "d_rem360 a = (case a of None \<Rightarrow> None | Some x \<Rightarrow> Some (js_rem x 360))"

subsection \<open>Data\<close>

record WheelItem =
  id' :: string
  label :: string

text \<open>The optional second argument of \<open>spinTo\<close>: \<open>{ spins?: number; durationMs?: number }\<close>.\<close>

record SpinOpts =
  spins :: "int option"
  durationMs :: "int option"

text \<open>The props of the component that the handle reads: the items, and whether the
  optional \<open>onDone\<close> was supplied.\<close>

record Props =
  items :: "WheelItem list"
  onDone :: bool

text \<open>\<open>wheelRef.current.style.transition\<close>: not yet written, \<open>"none"\<close>, or
  \<open>"transform <ms>ms cubic-bezier(...)"\<close>.\<close>

datatype Transition = Unset | NoTransition | Transform int

text \<open>A closure queued by \<open>requestAnimationFrame\<close>: the variables it captured.\<close>

record FrameCallback =
  cb_durationMs :: int
  cb_nextRotation :: rat
  cb_winnerId :: string

text \<open>A registered \<open>onEnd\<close> closure: the variables it captured.\<close>

record EndListener =
  l_nextRotation :: rat
  l_winnerId :: string

record Wheel =
  rotation :: rat
  spinning :: bool
  selectedId :: "string option"
  mounted :: bool
  transition :: Transition
  frames :: "FrameCallback list"
  listeners :: "EndListener list"
  doneCalls :: "string list"

text \<open>\<open>mounted\<close> is \<open>wheelRef.current \<noteq> null\<close>; \<open>doneCalls\<close> records the arguments of
  the calls of \<open>onDone\<close>, oldest first.\<close>

definition initial :: Wheel where
  "initial = \<lparr> rotation = 0, spinning = False, selectedId = None, mounted = True,
      transition = Unset, frames = [], listeners = [], doneCalls = [] \<rparr>"

text \<open>The phase of the specification, read off the two state variables as the status
  line of the component does (lines 160 to 164): \<open>spinning ? ... : selectedId ? ... : ...\<close>.
  The second test is JavaScript truthiness, so \<open>null\<close> and the empty string both give
  the idle text.\<close>

datatype Phase = Idle | Spinning | Settled

definition phase :: "Wheel \<Rightarrow> Phase" where
  "phase s = (if spinning s then Spinning
              else (case selectedId s of
                      None \<Rightarrow> Idle
                    | Some i \<Rightarrow> if i = [] then Idle else Settled))"

subsection \<open>Rotation arithmetic, exact (lines 53 and 72 to 76)\<close>

text \<open>\<open>Array.prototype.findIndex\<close>: the first index whose element satisfies the
  predicate, or \<open>-1\<close>.\<close>

fun findIndex_from :: "('a \<Rightarrow> bool) \<Rightarrow> 'a list \<Rightarrow> int \<Rightarrow> int" where
  "findIndex_from P [] k = - 1"
| "findIndex_from P (x # xs) k = (if P x then k else findIndex_from P xs (k + 1))"

definition findIndex :: "('a \<Rightarrow> bool) \<Rightarrow> 'a list \<Rightarrow> int" where
  "findIndex P xs = findIndex_from P xs 0"

definition sliceAngle :: "WheelItem list \<Rightarrow> rat" where
  "sliceAngle its = (if length its > 0 then 360 / of_nat (length its) else 0)"

definition winnerAngle :: "WheelItem list \<Rightarrow> int \<Rightarrow> rat" where
  "winnerAngle its idx = of_int idx * sliceAngle its + sliceAngle its / 2"

definition current :: "rat \<Rightarrow> rat" where
  "current rot = js_rem (js_rem rot 360 + 360) 360"

definition targetAbs :: "WheelItem list \<Rightarrow> int \<Rightarrow> int \<Rightarrow> rat" where
  "targetAbs its idx n = of_int n * 360 + (360 - winnerAngle its idx)"

definition deltaForward :: "WheelItem list \<Rightarrow> int \<Rightarrow> rat \<Rightarrow> int \<Rightarrow> rat" where
  "deltaForward its idx rot n =
     js_rem (js_rem (targetAbs its idx n - current rot) 360 + 360) 360 + of_int n * 360"

definition nextRotation :: "WheelItem list \<Rightarrow> int \<Rightarrow> rat \<Rightarrow> int \<Rightarrow> rat" where
  "nextRotation its idx rot n = rot + deltaForward its idx rot n"

subsection \<open>Rotation arithmetic in doubles (lines 53 and 72 to 76)\<close>

text \<open>The same expressions, operation by operation in the order in which JavaScript
  evaluates them. \<open>items.length\<close>, the index and the spin count are integers converted
  to doubles.\<close>

definition sliceAngle_d :: "WheelItem list \<Rightarrow> number" where
  "sliceAngle_d its = (if length its > 0 then d_div (Some 360) (d_round (of_nat (length its)))
                       else Some 0)"

definition winnerAngle_d :: "WheelItem list \<Rightarrow> int \<Rightarrow> number" where
  "winnerAngle_d its idx =
     d_add (d_mul (d_round (of_int idx)) (sliceAngle_d its)) (d_div (sliceAngle_d its) (Some 2))"


definition current_d :: "number \<Rightarrow> number" where
  "current_d rot = d_rem360 (d_add (d_rem360 rot) (Some 360))"

definition targetAbs_d :: "WheelItem list \<Rightarrow> int \<Rightarrow> int \<Rightarrow> number" where
  "targetAbs_d its idx n =
     d_add (d_mul (d_round (of_int n)) (Some 360)) (d_sub (Some 360) (winnerAngle_d its idx))"

definition deltaForward_d :: "WheelItem list \<Rightarrow> int \<Rightarrow> number \<Rightarrow> int \<Rightarrow> number" where
  "deltaForward_d its idx rot n =
     d_add (d_rem360 (d_add (d_rem360 (d_sub (targetAbs_d its idx n) (current_d rot))) (Some 360)))
           (d_mul (d_round (of_int n)) (Some 360))"

definition nextRotation_d :: "WheelItem list \<Rightarrow> int \<Rightarrow> number \<Rightarrow> int \<Rightarrow> number" where
  "nextRotation_d its idx rot n = d_add rot (deltaForward_d its idx rot n)"

subsection \<open>The handle: spinTo and reset\<close>

definition spins_of :: "SpinOpts option \<Rightarrow> int" where
  "spins_of opts = (case opts of None \<Rightarrow> 6
                    | Some o' \<Rightarrow> (case spins o' of None \<Rightarrow> 6 | Some n \<Rightarrow> n))"

definition durationMs_of :: "SpinOpts option \<Rightarrow> int" where
  "durationMs_of opts = (case opts of None \<Rightarrow> 4800
                    | Some o' \<Rightarrow> (case durationMs o' of None \<Rightarrow> 4800 | Some n \<Rightarrow> n))"

text \<open>\<open>spinTo\<close> returns early on an empty list and on an unknown id; otherwise it sets
  \<open>spinning\<close> and queues the frame callback. It reads no other state than \<open>rotation\<close>.\<close>

definition spinTo :: "Props \<Rightarrow> string \<Rightarrow> SpinOpts option \<Rightarrow> Wheel \<Rightarrow> Wheel" where
  "spinTo p winnerId opts s =
     (if length (items p) = 0 then s
      else let idx = findIndex (\<lambda>it. id' it = winnerId) (items p) in
        if idx = - 1 then s
        else s\<lparr> spinning := True,
                frames := frames s @
                  [\<lparr> cb_durationMs = durationMs_of opts,
                     cb_nextRotation = nextRotation (items p) idx (rotation s) (spins_of opts),
                     cb_winnerId = winnerId \<rparr>] \<rparr>)"

definition reset :: "Wheel \<Rightarrow> Wheel" where
  "reset s = s\<lparr> selectedId := None,
               transition := (if mounted s then NoTransition else transition s),
               rotation := 0,
               spinning := False \<rparr>"

subsection \<open>The browser's side: the animation frame and the end of the transition\<close>

text \<open>The body of the callback passed to \<open>requestAnimationFrame\<close> (lines 79 to 96).\<close>

definition runFrameCallback :: "FrameCallback \<Rightarrow> Wheel \<Rightarrow> Wheel" where
  "runFrameCallback cb s =
     (if \<not> mounted s then s
      else s\<lparr> transition := Transform (cb_durationMs cb),
              selectedId := None,
              rotation := cb_nextRotation cb,
              listeners := listeners s @
                [\<lparr> l_nextRotation = cb_nextRotation cb, l_winnerId = cb_winnerId cb \<rparr>] \<rparr>)"

text \<open>An animation frame runs the queued callbacks in the order of their requests.\<close>

definition frame :: "Wheel \<Rightarrow> Wheel" where
  "frame s = fold runFrameCallback (frames s) (s\<lparr> frames := [] \<rparr>)"

text \<open>\<open>onEnd\<close> (lines 85 to 94). It removes itself; closures that captured the same
  values are interchangeable, so removing the first equal entry is removing this one.\<close>

definition onEnd :: "Props \<Rightarrow> EndListener \<Rightarrow> Wheel \<Rightarrow> Wheel" where
  "onEnd p l s =
     (if \<not> mounted s then s
      else let canonical = js_rem (l_nextRotation l) 360 in
        s\<lparr> listeners := remove1 l (listeners s),
           transition := NoTransition,
           rotation := rotation s + (canonical - js_rem (rotation s) 360),
           spinning := False,
           selectedId := Some (l_winnerId l),
           doneCalls := (if onDone p then doneCalls s @ [l_winnerId l] else doneCalls s) \<rparr>)"

text \<open>The event \<open>transitionend\<close> on the wheel element is dispatched to the listeners
  registered when the dispatch starts, in the order of their registration.\<close>

definition transitionend :: "Props \<Rightarrow> Wheel \<Rightarrow> Wheel" where
  "transitionend p s = fold (onEnd p) (listeners s) s"

subsection \<open>Runs\<close>

datatype Event = SpinTo string "SpinOpts option" | Reset | Frame | TransitionEnd

fun step :: "Props \<Rightarrow> Event \<Rightarrow> Wheel \<Rightarrow> Wheel" where
  "step p (SpinTo w opts) s = spinTo p w opts s"
| "step p Reset s = reset s"
| "step p Frame s = frame s"
| "step p TransitionEnd s = transitionend p s"

definition run :: "Props \<Rightarrow> Event list \<Rightarrow> Wheel \<Rightarrow> Wheel" where
  "run p evs s = fold (step p) evs s"

subsection \<open>Concrete wheels\<close>

text \<open>The four items \<open>[A, B, C, D]\<close> of the specification's scenario, with \<open>onDone\<close>
  supplied.\<close>

definition four :: Props where
  "four = \<lparr> items = [\<lparr> id' = ''A'', label = ''Ann'' \<rparr>, \<lparr> id' = ''B'', label = ''Bob'' \<rparr>,
                       \<lparr> id' = ''C'', label = ''Cy'' \<rparr>, \<lparr> id' = ''D'', label = ''Dee'' \<rparr>],
            onDone = True \<rparr>"


text \<open>Seven items: the slice width \<open>360/7\<close> is not an integer.\<close>

definition seven :: Props where
  "seven = \<lparr> items = map (\<lambda>c. \<lparr> id' = [c], label = [c] \<rparr>) ''ABCDEFG'', onDone = True \<rparr>"

text \<open>The wheel in the middle of a spin to \<open>C\<close>: the frame callback has run, the
  transition has not ended.\<close>

definition mid_spin :: Wheel where
  "mid_spin = run four [SpinTo ''C'' None, Frame] initial"

text \<open>The events of a run in which every spin count is non-negative.\<close>

fun nonneg_spins :: "Event \<Rightarrow> bool" where
  "nonneg_spins (SpinTo w opts) = (0 \<le> spins_of opts)"
| "nonneg_spins Reset = True"
| "nonneg_spins Frame = True"
| "nonneg_spins TransitionEnd = True"

text \<open>Every target rotation that is stored in the state or still held by a queued
  closure is non-negative.\<close>

definition nonneg_state :: "Wheel \<Rightarrow> bool" where
  "nonneg_state s = (0 \<le> rotation s
      \<and> list_all (\<lambda>cb. 0 \<le> cb_nextRotation cb) (frames s)
      \<and> list_all (\<lambda>l. 0 \<le> l_nextRotation l) (listeners s))"

section \<open>Arithmetic of the remainder\<close>

lemma floor360_lower: "360 * rat_of_int \<lfloor>x / 360\<rfloor> \<le> x"
proof -
  have "rat_of_int \<lfloor>x / 360\<rfloor> \<le> x / 360" by (rule of_int_floor_le)
  then have "rat_of_int \<lfloor>x / 360\<rfloor> * 360 \<le> x" by (simp only: pos_le_divide_eq [of 360, simplified])
  then show ?thesis by (simp only: mult.commute)
qed

lemma floor360_upper: "x < 360 * rat_of_int \<lfloor>x / 360\<rfloor> + 360"
proof -
  have "x / 360 < rat_of_int \<lfloor>x / 360\<rfloor> + 1" by linarith
  then have "x / 360 * 360 < (rat_of_int \<lfloor>x / 360\<rfloor> + 1) * 360"
    by (rule mult_strict_right_mono) simp
  then show ?thesis by (simp add: algebra_simps)
qed

lemma ceiling360_upper: "x \<le> 360 * rat_of_int \<lceil>x / 360\<rceil>"
proof -
  have "x / 360 \<le> rat_of_int \<lceil>x / 360\<rceil>" by (rule le_of_int_ceiling)
  then have "x \<le> rat_of_int \<lceil>x / 360\<rceil> * 360" by (simp only: pos_divide_le_eq [of 360, simplified])
  then show ?thesis by (simp only: mult.commute)
qed

lemma ceiling360_lower: "360 * rat_of_int \<lceil>x / 360\<rceil> - 360 < x"
proof -
  have "rat_of_int \<lceil>x / 360\<rceil> - 1 < x / 360" by linarith
  then have "(rat_of_int \<lceil>x / 360\<rceil> - 1) * 360 < x / 360 * 360"
    by (rule mult_strict_right_mono) simp
  then show ?thesis by (simp add: algebra_simps)
qed

lemma mod360_bounds: "0 \<le> mod360 x \<and> mod360 x < 360"
  using floor360_lower [of x] floor360_upper [of x] by (simp add: mod360_def)

lemma mod360_shift: "mod360 (x + 360 * of_int k) = mod360 x"
proof -
  have "(x + 360 * rat_of_int k) / 360 = x / 360 + rat_of_int k" by (simp add: add_divide_distrib)
  then have "\<lfloor>(x + 360 * rat_of_int k) / 360\<rfloor> = \<lfloor>x / 360\<rfloor> + k" by (simp only: floor_add_int)
  then show ?thesis unfolding mod360_def by (simp add: algebra_simps)
qed

lemma mod360_small: "0 \<le> x \<Longrightarrow> x < 360 \<Longrightarrow> mod360 x = x"
proof -
  assume "0 \<le> x" "x < 360"
  then have "\<lfloor>x / 360\<rfloor> = 0" by (simp add: floor_eq_iff)
  then show ?thesis unfolding mod360_def by simp
qed

lemma js_rem_nonneg: "0 \<le> x \<Longrightarrow> js_rem x 360 = mod360 x"
  by (simp add: js_rem_def trunc_def mod360_def)

lemma js_rem_range: "- 360 < js_rem x 360 \<and> js_rem x 360 < 360"
proof (cases "0 \<le> x")
  case True
  then show ?thesis using mod360_bounds [of x] by (simp add: js_rem_nonneg)
next
  case False
  then show ?thesis using ceiling360_upper [of x] ceiling360_lower [of x]
    by (simp add: js_rem_def trunc_def)
qed

lemma current_eq: "current rot = mod360 rot"
proof -
  let ?r = "js_rem rot 360"
  have r: "- 360 < ?r \<and> ?r < 360" by (rule js_rem_range)
  then have nn: "0 \<le> ?r + 360" by simp
  have "current rot = mod360 (?r + 360)" unfolding current_def using nn by (simp add: js_rem_nonneg)
  also have "?r + 360 = rot + 360 * of_int (1 - trunc (rot / 360))"
    by (simp add: js_rem_def algebra_simps)
  also have "mod360 \<dots> = mod360 rot" by (rule mod360_shift)
  finally show ?thesis .
qed

lemma deltaForward_eq:
  "deltaForward its idx rot n = mod360 (360 - winnerAngle its idx - mod360 rot) + of_int n * 360"
proof -
  let ?t = "targetAbs its idx n - current rot"
  have e1: "js_rem (js_rem ?t 360 + 360) 360 = mod360 ?t"
    using current_eq [of ?t] by (simp only: current_def)
  have e2: "?t = (360 - winnerAngle its idx - mod360 rot) + 360 * of_int n"
    by (simp add: targetAbs_def current_eq)
  have e3: "mod360 ?t = mod360 (360 - winnerAngle its idx - mod360 rot)"
    by (simp only: e2 mod360_shift)
  show ?thesis by (simp only: deltaForward_def e1 e3)
qed

lemma mod360_cong: "mod360 (mod360 x + y) = mod360 (x + y)"
proof -
  have "mod360 x + y = (x + y) + 360 * of_int (- \<lfloor>x / 360\<rfloor>)" by (simp add: mod360_def)
  then show ?thesis by (simp only: mod360_shift)
qed

lemma aligned: "mod360 (rot + deltaForward its idx rot n) = mod360 (360 - winnerAngle its idx)"
proof -
  let ?a = "360 - winnerAngle its idx"
  have "rot + deltaForward its idx rot n = (mod360 (?a - mod360 rot) + rot) + 360 * of_int n"
    by (simp add: deltaForward_eq)
  then have "mod360 (rot + deltaForward its idx rot n) = mod360 (mod360 (?a - mod360 rot) + rot)"
    by (simp only: mod360_shift)
  also have "\<dots> = mod360 ((?a - mod360 rot) + rot)" by (rule mod360_cong)
  also have "(?a - mod360 rot) + rot = ?a + 360 * of_int \<lfloor>rot / 360\<rfloor>" by (simp add: mod360_def)
  also have "mod360 \<dots> = mod360 ?a" by (rule mod360_shift)
  finally show ?thesis .
qed

lemma aligned_current: "mod360 (current rot + deltaForward its idx rot n) = mod360 (360 - winnerAngle its idx)"
proof -
  have "mod360 (current rot + deltaForward its idx rot n) = mod360 (rot + deltaForward its idx rot n)"
    by (simp only: current_eq mod360_cong)
  then show ?thesis by (simp only: aligned)
qed

lemma deltaForward_lower: "of_int n * 360 \<le> deltaForward its idx rot n"
  using mod360_bounds [of "360 - winnerAngle its idx - mod360 rot"] by (simp add: deltaForward_eq)

lemma deltaForward_upper: "deltaForward its idx rot n < (of_int n + 1) * 360"
  using mod360_bounds [of "360 - winnerAngle its idx - mod360 rot"] by (simp add: deltaForward_eq algebra_simps)

section \<open>Finding the winner\<close>

lemma findIndex_from_none: "\<forall>x\<in>set xs. \<not> P x \<Longrightarrow> findIndex_from P xs k = - 1"
  by (induction xs arbitrary: k) auto

lemma findIndex_from_found:
  "\<exists>x\<in>set xs. P x \<Longrightarrow> k \<le> findIndex_from P xs k \<and> findIndex_from P xs k < k + int (length xs)
     \<and> P (xs ! nat (findIndex_from P xs k - k))"
proof (induction xs arbitrary: k)
  case Nil
  then show ?case by simp
next
  case (Cons x xs)
  show ?case
  proof (cases "P x")
    case True
    then show ?thesis by simp
  next
    case False
    with Cons.prems have ex: "\<exists>x\<in>set xs. P x" by auto
    let ?r = "findIndex_from P xs (k + 1)"
    from Cons.IH [OF ex, of "k + 1"]
    have ih: "k + 1 \<le> ?r" "?r < k + 1 + int (length xs)" "P (xs ! nat (?r - (k + 1)))"
      by simp_all
    from ih(1) have "nat (?r - k) = Suc (nat (?r - (k + 1)))" by linarith
    with ih False show ?thesis by simp
  qed
qed

lemma findIndex_found_iff: "findIndex P xs \<noteq> - 1 \<longleftrightarrow> (\<exists>x\<in>set xs. P x)"
proof
  assume "findIndex P xs \<noteq> - 1"
  then show "\<exists>x\<in>set xs. P x" using findIndex_from_none [of xs P 0] by (auto simp: findIndex_def)
next
  assume "\<exists>x\<in>set xs. P x"
  then show "findIndex P xs \<noteq> - 1" using findIndex_from_found [of xs P 0] by (auto simp: findIndex_def)
qed

lemma findIndex_known:
  assumes "w \<in> set (map id' its)"
  shows "0 \<le> findIndex (\<lambda>it. id' it = w) its \<and> findIndex (\<lambda>it. id' it = w) its < int (length its)
     \<and> id' (its ! nat (findIndex (\<lambda>it. id' it = w) its)) = w \<and> its \<noteq> []"
proof -
  from assms have ex: "\<exists>x\<in>set its. id' x = w" by auto
  from findIndex_from_found [OF ex, of 0] assms show ?thesis by (auto simp: findIndex_def)
qed

lemma findIndex_from_first:
  "j < length xs \<Longrightarrow> P (xs ! j) \<Longrightarrow> \<forall>i<j. \<not> P (xs ! i) \<Longrightarrow> findIndex_from P xs k = k + int j"
proof (induction xs arbitrary: k j)
  case Nil
  then show ?case by simp
next
  case (Cons x xs)
  show ?case
  proof (cases j)
    case 0
    with Cons.prems show ?thesis by simp
  next
    case (Suc j')
    with Cons.prems have "\<not> P x" by auto
    moreover have "findIndex_from P xs (k + 1) = k + 1 + int j'"
      using Cons.prems Suc by (intro Cons.IH) auto
    ultimately show ?thesis using Suc by simp
  qed
qed

lemma findIndex_distinct:
  assumes "distinct (map id' its)" "j < length its" "id' (its ! j) = w"
  shows "findIndex (\<lambda>it. id' it = w) its = int j"
proof -
  have "\<forall>i<j. id' (its ! i) \<noteq> w"
  proof (intro allI impI)
    fix i assume "i < j"
    with assms have "map id' its ! i \<noteq> map id' its ! j"
      by (simp add: nth_eq_iff_index_eq del: nth_map)
    with assms \<open>i < j\<close> show "id' (its ! i) \<noteq> w" by simp
  qed
  with assms show ?thesis using findIndex_from_first [of j its "\<lambda>it. id' it = w" 0]
    by (simp add: findIndex_def)
qed

section \<open>The steps of the wheel\<close>

lemma spinTo_known:
  assumes "w \<in> set (map id' (items p))"
  shows "spinTo p w opts s = s\<lparr> spinning := True,
           frames := frames s @
             [\<lparr> cb_durationMs = durationMs_of opts,
                cb_nextRotation = rotation s + deltaForward (items p)
                   (findIndex (\<lambda>it. id' it = w) (items p)) (rotation s) (spins_of opts),
                cb_winnerId = w \<rparr>] \<rparr>"
proof -
  from assms have "\<exists>x\<in>set (items p). id' x = w" by auto
  then have "findIndex (\<lambda>it. id' it = w) (items p) \<noteq> - 1" by (simp only: findIndex_found_iff)
  moreover from assms have "length (items p) \<noteq> 0" by auto
  ultimately show ?thesis by (simp add: spinTo_def nextRotation_def Let_def)
qed

lemma spinTo_unknown:
  assumes "items p = [] \<or> w \<notin> set (map id' (items p))"
  shows "spinTo p w opts s = s"
proof (cases "items p = []")
  case True
  then show ?thesis by (simp add: spinTo_def)
next
  case False
  with assms have "\<not> (\<exists>x\<in>set (items p). id' x = w)" by auto
  then have "findIndex (\<lambda>it. id' it = w) (items p) = - 1" using findIndex_found_iff by blast
  then show ?thesis by (simp add: spinTo_def)
qed

lemma winnerAngle_mid:
  assumes "its \<noteq> []"
  shows "winnerAngle its i = of_int i * 360 / of_nat (length its) + 180 / of_nat (length its)"
  using assms by (simp add: winnerAngle_def sliceAngle_def)

lemma onEnd_mounted: "mounted (onEnd p l s) = mounted s"
  by (simp add: onEnd_def Let_def)

lemma fold_onEnd_mounted: "mounted (fold (onEnd p) ls s) = mounted s"
  by (induction ls arbitrary: s) (simp_all add: onEnd_mounted)

lemma fold_onEnd_frames: "frames (fold (onEnd p) ls s) = frames s"
  by (induction ls arbitrary: s) (simp_all add: onEnd_def Let_def)

lemma fold_onEnd_doneCalls:
  "mounted s \<Longrightarrow> onDone p \<Longrightarrow> doneCalls (fold (onEnd p) ls s) = doneCalls s @ map l_winnerId ls"
proof (induction ls arbitrary: s)
  case Nil
  then show ?case by simp
next
  case (Cons l ls)
  from Cons.prems have m: "mounted (onEnd p l s)" by (simp add: onEnd_mounted)
  from Cons.prems have d: "doneCalls (onEnd p l s) = doneCalls s @ [l_winnerId l]"
    by (simp add: onEnd_def Let_def)
  from Cons.IH [OF m Cons.prems(2)] d show ?case by simp
qed

lemma fold_onEnd_listeners:
  "mounted s \<Longrightarrow> listeners (fold (onEnd p) ls s) = fold remove1 ls (listeners s)"
proof (induction ls arbitrary: s)
  case Nil
  then show ?case by simp
next
  case (Cons l ls)
  from Cons.prems have m: "mounted (onEnd p l s)" by (simp add: onEnd_mounted)
  from Cons.prems have d: "listeners (onEnd p l s) = remove1 l (listeners s)"
    by (simp add: onEnd_def Let_def)
  from Cons.IH [OF m] d show ?case by simp
qed

lemma fold_remove1_prefix: "fold remove1 xs (xs @ ys) = ys"
  by (induction xs) simp_all

lemma fold_onEnd_last:
  "mounted s \<Longrightarrow> ls \<noteq> [] \<Longrightarrow>
     selectedId (fold (onEnd p) ls s) = Some (l_winnerId (last ls))
     \<and> spinning (fold (onEnd p) ls s) = False"
proof (induction ls arbitrary: s)
  case Nil
  then show ?case by simp
next
  case (Cons l ls)
  from Cons.prems have m: "mounted (onEnd p l s)" by (simp add: onEnd_mounted)
  show ?case
  proof (cases "ls = []")
    case True
    with Cons.prems show ?thesis by (simp add: onEnd_def Let_def)
  next
    case False
    from Cons.IH [OF m False] False show ?thesis by simp
  qed
qed

text \<open>One spin from a state with no queued frame callback: whatever listeners earlier
  spins left behind run first, the listener of this spin runs last and once.\<close>

lemma spin_completion_general:
  assumes "w \<in> set (map id' (items p))" "onDone p" "mounted s" "frames s = []"
  shows "doneCalls (transitionend p (frame (spinTo p w opts s)))
           = doneCalls s @ map l_winnerId (listeners s) @ [w]
     \<and> selectedId (transitionend p (frame (spinTo p w opts s))) = Some w
     \<and> spinning (transitionend p (frame (spinTo p w opts s))) = False
     \<and> listeners (transitionend p (frame (spinTo p w opts s))) = []
     \<and> frames (transitionend p (frame (spinTo p w opts s))) = []"
proof -
  let ?d = "deltaForward (items p) (findIndex (\<lambda>it. id' it = w) (items p)) (rotation s) (spins_of opts)"
  let ?l = "\<lparr> l_nextRotation = rotation s + ?d, l_winnerId = w \<rparr>"
  let ?f = "frame (spinTo p w opts s)"
  have f: "?f = s\<lparr> spinning := True, frames := [], transition := Transform (durationMs_of opts),
       selectedId := None, rotation := rotation s + ?d, listeners := listeners s @ [?l] \<rparr>"
    using assms by (simp add: spinTo_known frame_def runFrameCallback_def)
  have m: "mounted ?f" using assms(3) by (simp add: f)
  have ls: "listeners ?f = listeners s @ [?l]" by (simp add: f)
  have dc: "doneCalls ?f = doneCalls s" by (simp add: f)
  have fr: "frames ?f = []" by (simp add: f)
  have 1: "doneCalls (transitionend p ?f) = doneCalls s @ map l_winnerId (listeners s) @ [w]"
    unfolding transitionend_def using fold_onEnd_doneCalls [OF m assms(2), of "listeners ?f"]
    by (simp add: ls dc)
  have 2: "selectedId (transitionend p ?f) = Some w \<and> spinning (transitionend p ?f) = False"
    unfolding transitionend_def using fold_onEnd_last [OF m, of "listeners ?f" p] by (simp add: ls)
  have 3: "listeners (transitionend p ?f) = []"
    unfolding transitionend_def using fold_onEnd_listeners [OF m, of p "listeners ?f"]
      fold_remove1_prefix [of "listeners ?f" "[]"] by simp
  have 4: "frames (transitionend p ?f) = []"
    unfolding transitionend_def by (simp add: fold_onEnd_frames fr)
  from 1 2 3 4 show ?thesis by simp
qed



text \<open>From a state in which nothing of an earlier spin is queued, and for a non-empty id,
  one spin calls \<open>onDone\<close> once, with its id, and ends in the phase \<open>Settled\<close>.\<close>

lemma spin_completion_clean:
  assumes "w \<in> set (map id' (items p))" "onDone p" "mounted s"
    and "frames s = []" "listeners s = []" "w \<noteq> []"
  shows "phase (spinTo p w opts s) = Spinning
     \<and> doneCalls (spinTo p w opts s) = doneCalls s
     \<and> phase (frame (spinTo p w opts s)) = Spinning
     \<and> doneCalls (frame (spinTo p w opts s)) = doneCalls s
     \<and> doneCalls (transitionend p (frame (spinTo p w opts s))) = doneCalls s @ [w]
     \<and> phase (transitionend p (frame (spinTo p w opts s))) = Settled
     \<and> selectedId (transitionend p (frame (spinTo p w opts s))) = Some w
     \<and> listeners (transitionend p (frame (spinTo p w opts s))) = []
     \<and> transitionend p (transitionend p (frame (spinTo p w opts s)))
         = transitionend p (frame (spinTo p w opts s))"
proof -
  let ?s1 = "spinTo p w opts s"
  let ?s3 = "transitionend p (frame ?s1)"
  have a: "phase ?s1 = Spinning \<and> doneCalls ?s1 = doneCalls s"
    using assms(1) by (simp add: spinTo_known phase_def)
  have b: "phase (frame ?s1) = Spinning \<and> doneCalls (frame ?s1) = doneCalls s"
    using assms by (simp add: spinTo_known frame_def runFrameCallback_def phase_def)
  from spin_completion_general [OF assms(1-4), of opts] assms(5)
  have c: "doneCalls ?s3 = doneCalls s @ [w]" "selectedId ?s3 = Some w" "spinning ?s3 = False"
    "listeners ?s3 = []" by simp_all
  from c assms(6) have d: "phase ?s3 = Settled" by (simp add: phase_def)
  from c(4) have e: "transitionend p ?s3 = ?s3" by (simp add: transitionend_def)
  from a b c d e show ?thesis by simp
qed

section \<open>The rotation stays non-negative\<close>

lemma mod360_le: "0 \<le> x \<Longrightarrow> mod360 x \<le> x"
proof -
  assume "0 \<le> x"
  then have "0 \<le> x / 360" by simp
  then have "0 \<le> \<lfloor>x / 360\<rfloor>" by (simp only: zero_le_floor)
  then have "(0::rat) \<le> 360 * of_int \<lfloor>x / 360\<rfloor>" by simp
  then show ?thesis by (simp add: mod360_def)
qed

lemma nonneg_state_spinTo:
  assumes "nonneg_state s" "0 \<le> spins_of opts"
  shows "nonneg_state (spinTo p w opts s)"
proof -
  have "(0::rat) \<le> of_int (spins_of opts) * 360" using assms(2) by simp
  then have "0 \<le> deltaForward (items p) i (rotation s) (spins_of opts)" for i
    using deltaForward_lower [of "spins_of opts" "items p" i "rotation s"] by linarith
  then have "0 \<le> nextRotation (items p) i (rotation s) (spins_of opts)" for i
    using assms(1) by (simp add: nextRotation_def nonneg_state_def)
  then show ?thesis using assms(1) by (simp add: spinTo_def Let_def nonneg_state_def)
qed

lemma nonneg_state_reset: "nonneg_state s \<Longrightarrow> nonneg_state (reset s)"
  by (simp add: reset_def nonneg_state_def)

lemma nonneg_state_runFrameCallback:
  "nonneg_state s \<Longrightarrow> 0 \<le> cb_nextRotation cb \<Longrightarrow> nonneg_state (runFrameCallback cb s)"
  by (simp add: runFrameCallback_def nonneg_state_def)

lemma nonneg_state_fold_frames:
  "nonneg_state s \<Longrightarrow> list_all (\<lambda>cb. 0 \<le> cb_nextRotation cb) cbs
     \<Longrightarrow> nonneg_state (fold runFrameCallback cbs s)"
  by (induction cbs arbitrary: s) (simp_all add: nonneg_state_runFrameCallback)

lemma nonneg_state_frame: "nonneg_state s \<Longrightarrow> nonneg_state (frame s)"
proof -
  assume a: "nonneg_state s"
  then have "nonneg_state (s\<lparr> frames := [] \<rparr>)" by (simp add: nonneg_state_def)
  moreover from a have "list_all (\<lambda>cb. 0 \<le> cb_nextRotation cb) (frames s)"
    by (simp add: nonneg_state_def)
  ultimately show ?thesis unfolding frame_def by (rule nonneg_state_fold_frames)
qed

lemma list_all_remove1: "list_all P xs \<Longrightarrow> list_all P (remove1 x xs)"
  by (induction xs) auto

lemma nonneg_state_onEnd:
  assumes "nonneg_state s" "0 \<le> l_nextRotation l"
  shows "nonneg_state (onEnd p l s)"
proof -
  from assms(1) have r: "0 \<le> rotation s" by (simp add: nonneg_state_def)
  have "0 \<le> rotation s + (js_rem (l_nextRotation l) 360 - js_rem (rotation s) 360)"
    using mod360_le [OF r] mod360_bounds [of "l_nextRotation l"] r assms(2)
    by (simp add: js_rem_nonneg)
  then show ?thesis using assms(1)
    by (simp add: onEnd_def Let_def nonneg_state_def list_all_remove1)
qed

lemma nonneg_state_fold_onEnd:
  "nonneg_state s \<Longrightarrow> list_all (\<lambda>l. 0 \<le> l_nextRotation l) ls
     \<Longrightarrow> nonneg_state (fold (onEnd p) ls s)"
  by (induction ls arbitrary: s) (simp_all add: nonneg_state_onEnd)

lemma nonneg_state_transitionend: "nonneg_state s \<Longrightarrow> nonneg_state (transitionend p s)"
proof -
  assume a: "nonneg_state s"
  then have "list_all (\<lambda>l. 0 \<le> l_nextRotation l) (listeners s)" by (simp add: nonneg_state_def)
  with a show ?thesis unfolding transitionend_def by (rule nonneg_state_fold_onEnd)
qed

lemma nonneg_state_step: "nonneg_state s \<Longrightarrow> nonneg_spins ev \<Longrightarrow> nonneg_state (step p ev s)"
  by (cases ev)
    (simp_all add: nonneg_state_spinTo nonneg_state_reset nonneg_state_frame
      nonneg_state_transitionend)

lemma nonneg_state_run:
  "nonneg_state s \<Longrightarrow> list_all nonneg_spins evs \<Longrightarrow> nonneg_state (run p evs s)"
  unfolding run_def by (induction evs arbitrary: s) (simp_all add: nonneg_state_step)

lemma nonneg_state_initial: "nonneg_state initial"
  by (simp add: nonneg_state_def initial_def)

section \<open>Rounding to doubles\<close>

lemma bitlen_pos: "0 < n \<Longrightarrow> bitlen n = Suc (bitlen (n div 2))"
  by (subst bitlen.simps) simp

lemma bitlen_nonpos: "n \<le> 0 \<Longrightarrow> bitlen n = 0"
  by (subst bitlen.simps) simp

lemma bitlen_bounds: "0 < n \<Longrightarrow> 2 ^ (bitlen n - 1) \<le> n \<and> n < 2 ^ bitlen n"
proof (induction n rule: bitlen.induct)
  case (1 n)
  show ?case
  proof (cases "n = 1")
    case True
    then show ?thesis by (simp add: bitlen_pos bitlen_nonpos)
  next
    case False
    with "1.prems" have m: "0 < n div 2" by simp
    from "1.prems" have "\<not> n \<le> 0" by simp
    from "1.IH" [OF this m]
    have ih: "2 ^ (bitlen (n div 2) - 1) \<le> n div 2" "n div 2 < 2 ^ bitlen (n div 2)" by simp_all
    from m have "bitlen (n div 2) = Suc (bitlen (n div 2) - 1)" by (simp add: bitlen_pos)
    then have p: "(2::int) ^ bitlen (n div 2) = 2 * 2 ^ (bitlen (n div 2) - 1)"
      by (metis power_Suc)
    have bl: "bitlen n = Suc (bitlen (n div 2))" using "1.prems" by (rule bitlen_pos)
    have "2 * (n div 2) \<le> n" by simp
    moreover have "n < 2 * (n div 2) + 2" by presburger
    ultimately show ?thesis using ih p by (simp add: bl)
  qed
qed

lemma ilog2_bracket:
  assumes "0 < x"
  shows "power_int 2 (ilog2 x) \<le> x \<and> x < power_int 2 (ilog2 x + 1)"
proof (cases "1 \<le> x")
  case True
  let ?f = "\<lfloor>x\<rfloor>"
  from True have f: "0 < ?f" by simp
  from bitlen_bounds [OF f] have b: "2 ^ (bitlen ?f - 1) \<le> ?f" "?f < 2 ^ bitlen ?f" by simp_all
  from f have bp: "0 < bitlen ?f" by (simp add: bitlen_pos)
  have e: "ilog2 x = int (bitlen ?f - 1)" using True bp by (simp add: ilog2_def)
  have e1: "ilog2 x + 1 = int (bitlen ?f)" using True bp by (simp add: ilog2_def)
  have "rat_of_int (2 ^ (bitlen ?f - 1)) \<le> rat_of_int ?f" using b(1) by (simp only: of_int_le_iff)
  also have "\<dots> \<le> x" by simp
  finally have lo: "power_int 2 (ilog2 x) \<le> x" by (simp add: e)
  from b(2) have "?f + 1 \<le> 2 ^ bitlen ?f" by simp
  then have "rat_of_int (?f + 1) \<le> rat_of_int (2 ^ bitlen ?f)" by (simp only: of_int_le_iff)
  moreover have "x < rat_of_int (?f + 1)" by linarith
  ultimately have hi: "x < power_int 2 (ilog2 x + 1)" by (simp add: e1)
  from lo hi show ?thesis ..
next
  case False
  with assms have x1: "x < 1" by simp
  let ?y = "1 / x"
  let ?k = "\<lceil>?y\<rceil> - 1"
  from assms x1 have y1: "1 < ?y" by simp
  then have k: "0 < ?k" by linarith
  from bitlen_bounds [OF k] have b: "2 ^ (bitlen ?k - 1) \<le> ?k" "?k < 2 ^ bitlen ?k" by simp_all
  from k have bp: "0 < bitlen ?k" by (simp add: bitlen_pos)
  have e: "ilog2 x = - int (bitlen ?k)" using False by (simp add: ilog2_def)
  have e1: "ilog2 x + 1 = - int (bitlen ?k - 1)" using bp by (simp add: e)
  from b(2) have "\<lceil>?y\<rceil> \<le> 2 ^ bitlen ?k" by simp
  then have "rat_of_int \<lceil>?y\<rceil> \<le> rat_of_int (2 ^ bitlen ?k)" by (simp only: of_int_le_iff)
  moreover have "?y \<le> rat_of_int \<lceil>?y\<rceil>" by simp
  ultimately have "?y \<le> rat_of_int (2 ^ bitlen ?k)" by (rule order_trans [rotated])
  then have "?y \<le> 2 ^ bitlen ?k" by simp
  with assms have "1 \<le> 2 ^ bitlen ?k * x" by (simp add: field_simps)
  then have "1 / 2 ^ bitlen ?k \<le> x" by (simp add: field_simps)
  then have lo: "power_int 2 (ilog2 x) \<le> x" by (simp add: e power_int_minus_divide)
  from b(1) have "rat_of_int (2 ^ (bitlen ?k - 1)) \<le> rat_of_int ?k" by (simp only: of_int_le_iff)
  moreover have "rat_of_int ?k < ?y" by linarith
  ultimately have "2 ^ (bitlen ?k - 1) < ?y" by simp
  with assms have "2 ^ (bitlen ?k - 1) * x < 1" by (simp add: field_simps)
  then have "x < 1 / 2 ^ (bitlen ?k - 1)" by (simp add: field_simps)
  then have hi: "x < power_int 2 (ilog2 x + 1)" by (simp only: e1 power_int_minus_divide power_int_of_nat)
  from lo hi show ?thesis ..
qed

lemma rhe_of_int: "rhe (of_int k) = k"
  by (simp add: rhe_def)

lemma rhe_cases: "rhe x = \<lfloor>x\<rfloor> \<or> rhe x = \<lfloor>x\<rfloor> + 1"
  by (simp add: rhe_def Let_def)

lemma rhe_err: "\<bar>of_int (rhe x) - x\<bar> \<le> 1 / 2"
proof -
  have "of_int \<lfloor>x\<rfloor> \<le> x" "x < of_int \<lfloor>x\<rfloor> + 1" by linarith+
  then show ?thesis by (auto simp: rhe_def Let_def abs_le_iff)
qed

lemma rhe_mono: "x \<le> y \<Longrightarrow> rhe x \<le> rhe y"
proof -
  assume xy: "x \<le> y"
  then have fl: "\<lfloor>x\<rfloor> \<le> \<lfloor>y\<rfloor>" by (rule floor_mono)
  show ?thesis
  proof (cases "\<lfloor>x\<rfloor> = \<lfloor>y\<rfloor>")
    case True
    with xy show ?thesis by (auto simp: rhe_def Let_def)
  next
    case False
    with fl have "\<lfloor>x\<rfloor> + 1 \<le> \<lfloor>y\<rfloor>" by simp
    moreover have "rhe x \<le> \<lfloor>x\<rfloor> + 1" using rhe_cases [of x] by auto
    moreover have "\<lfloor>y\<rfloor> \<le> rhe y" using rhe_cases [of y] by auto
    ultimately show ?thesis by linarith
  qed
qed

lemma ulp_pos: "0 < ulp x"
  by (simp add: ulp_def)

lemma rne_err: "\<bar>rne x - x\<bar> \<le> ulp x / 2"
proof (cases "x = 0")
  case True
  then show ?thesis using ulp_pos [of 0] by (simp add: rne_def)
next
  case False
  let ?u = "ulp x"
  have u: "0 < ?u" by (rule ulp_pos)
  have "rne x - x = (of_int (rhe (x / ?u)) - x / ?u) * ?u"
    using False u by (simp add: rne_def Let_def field_simps)
  then have "\<bar>rne x - x\<bar> = \<bar>of_int (rhe (x / ?u)) - x / ?u\<bar> * ?u"
    using u by (simp add: abs_mult)
  also have "\<dots> \<le> (1 / 2) * ?u"
    using rhe_err [of "x / ?u"] u by (intro mult_right_mono) simp_all
  finally show ?thesis by simp
qed

lemma ulp_le:
  assumes "\<bar>x\<bar> \<le> B" "power_int 2 (- 1022) \<le> B" "x \<noteq> 0"
  shows "ulp x / 2 \<le> B / 2 ^ 53"
proof -
  have m: "power_int 2 (max (ilog2 \<bar>x\<bar>) (- 1022)) \<le> B"
  proof (cases "ilog2 \<bar>x\<bar> \<le> - 1022")
    case True
    then show ?thesis using assms(2) by (simp add: max_def)
  next
    case False
    from assms(3) have "power_int 2 (ilog2 \<bar>x\<bar>) \<le> \<bar>x\<bar>" using ilog2_bracket [of "\<bar>x\<bar>"] by simp
    with assms(1) False show ?thesis by (simp add: max_def)
  qed
  have "ulp x = power_int 2 (max (ilog2 \<bar>x\<bar>) (- 1022)) / 2 ^ 52"
    by (simp add: ulp_def power_int_diff)
  with m show ?thesis by (simp add: field_simps)
qed

lemma rne_err_bound:
  assumes "\<bar>x\<bar> \<le> B" "power_int 2 (- 1022) \<le> B"
  shows "\<bar>rne x - x\<bar> \<le> B / 2 ^ 53"
proof (cases "x = 0")
  case True
  with assms(1) show ?thesis by (simp add: rne_def)
next
  case False
  with rne_err [of x] ulp_le [OF assms] show ?thesis by linarith
qed

lemma ulp_small:
  assumes "x \<noteq> 0" "\<bar>x\<bar> < 2 ^ 53"
  shows "\<exists>g::nat. ulp x = 1 / 2 ^ g"
proof -
  from assms(1) have "power_int 2 (ilog2 \<bar>x\<bar>) \<le> \<bar>x\<bar>" using ilog2_bracket [of "\<bar>x\<bar>"] by simp
  with assms(2) have "power_int (2::rat) (ilog2 \<bar>x\<bar>) < power_int 2 53" by simp
  then have "ilog2 \<bar>x\<bar> < 53" by (rule power_int_le_imp_less_exp [rotated]) simp_all
  then have "max (ilog2 \<bar>x\<bar>) (- 1022) - 52 \<le> 0" by simp
  then obtain g :: nat where g: "max (ilog2 \<bar>x\<bar>) (- 1022) - 52 = - int g"
    by (metis nat_0_le neg_0_le_iff_le minus_minus)
  have "ulp x = 1 / 2 ^ g" by (simp add: ulp_def g power_int_minus_divide)
  then show ?thesis ..
qed

lemma rne_sandwich:
  assumes "of_int a \<le> x" "x \<le> of_int b" "\<bar>x\<bar> < 2 ^ 53"
  shows "of_int a \<le> rne x \<and> rne x \<le> of_int b"
proof (cases "x = 0")
  case True
  with assms show ?thesis by (simp add: rne_def)
next
  case False
  from ulp_small [OF False assms(3)] obtain g :: nat where g: "ulp x = 1 / 2 ^ g" ..
  have r: "rne x = of_int (rhe (x * 2 ^ g)) / 2 ^ g" using False by (simp add: rne_def Let_def g)
  have "rat_of_int (a * 2 ^ g) \<le> x * 2 ^ g" using assms(1) by simp
  then have "rhe (rat_of_int (a * 2 ^ g)) \<le> rhe (x * 2 ^ g)" by (rule rhe_mono)
  then have "a * 2 ^ g \<le> rhe (x * 2 ^ g)" by (simp only: rhe_of_int)
  then have "rat_of_int (a * 2 ^ g) \<le> rat_of_int (rhe (x * 2 ^ g))" by (simp only: of_int_le_iff)
  then have lo: "of_int a \<le> rne x" by (simp add: r field_simps)
  have "x * 2 ^ g \<le> rat_of_int (b * 2 ^ g)" using assms(2) by simp
  then have "rhe (x * 2 ^ g) \<le> rhe (rat_of_int (b * 2 ^ g))" by (rule rhe_mono)
  then have "rhe (x * 2 ^ g) \<le> b * 2 ^ g" by (simp only: rhe_of_int)
  then have "rat_of_int (rhe (x * 2 ^ g)) \<le> rat_of_int (b * 2 ^ g)" by (simp only: of_int_le_iff)
  then have hi: "rne x \<le> of_int b" by (simp add: r field_simps)
  from lo hi show ?thesis ..
qed

lemma d_round_finite:
  assumes "\<bar>rne x\<bar> < 2 ^ 1024"
  shows "d_round x = Some (rne x)"
proof -
  have "\<not> (rne x \<noteq> 0 \<and> 1024 \<le> ilog2 \<bar>rne x\<bar>)"
  proof
    assume a: "rne x \<noteq> 0 \<and> 1024 \<le> ilog2 \<bar>rne x\<bar>"
    then have "power_int 2 (ilog2 \<bar>rne x\<bar>) \<le> \<bar>rne x\<bar>" using ilog2_bracket [of "\<bar>rne x\<bar>"] by simp
    moreover from a have "power_int (2::rat) 1024 \<le> power_int 2 (ilog2 \<bar>rne x\<bar>)"
      by (intro power_int_increasing) simp_all
    ultimately show False using assms by simp
  qed
  then show ?thesis by (simp add: d_round_def Let_def)
qed

lemma d_round_overflow:
  assumes "2 ^ 1024 \<le> \<bar>rne x\<bar>"
  shows "d_round x = None"
proof -
  from assms have nz: "rne x \<noteq> 0" by auto
  then have "\<bar>rne x\<bar> < power_int 2 (ilog2 \<bar>rne x\<bar> + 1)" using ilog2_bracket [of "\<bar>rne x\<bar>"] by simp
  with assms have lt: "power_int (2::rat) 1024 < power_int 2 (ilog2 \<bar>rne x\<bar> + 1)" by simp
  have "1024 < ilog2 \<bar>rne x\<bar> + 1"
  proof (rule ccontr)
    assume "\<not> 1024 < ilog2 \<bar>rne x\<bar> + 1"
    then have "power_int (2::rat) (ilog2 \<bar>rne x\<bar> + 1) \<le> power_int 2 1024"
      by (intro power_int_increasing) simp_all
    with lt show False by simp
  qed
  with nz show ?thesis by (simp add: d_round_def Let_def)
qed

lemma d_round_rel:
  assumes "\<bar>x\<bar> \<le> B" "power_int 2 (- 1022) \<le> B" "B \<le> 2 ^ 1000"
  shows "d_round x = Some (rne x) \<and> \<bar>rne x - x\<bar> \<le> B / 2 ^ 53"
proof -
  from rne_err_bound [OF assms(1,2)] have e: "\<bar>rne x - x\<bar> \<le> B / 2 ^ 53" .
  have "(0::rat) < power_int 2 (- 1022)" by simp
  with assms(2) have "0 < B" by linarith
  then have "B / 2 ^ 53 \<le> B" by (simp add: field_simps)
  with e assms(1) have "\<bar>rne x\<bar> \<le> 2 * B" by linarith
  with assms(3) have "\<bar>rne x\<bar> < 2 ^ 1024" by simp
  then have "d_round x = Some (rne x)" by (rule d_round_finite)
  with e show ?thesis by simp
qed

lemma d_round_err:
  assumes "\<bar>x\<bar> \<le> B" "1 \<le> B" "B \<le> 2 ^ 1000"
  shows "d_round x = Some (rne x) \<and> \<bar>rne x - x\<bar> \<le> B / 2 ^ 53"
proof -
  have "power_int (2::rat) (- 1022) \<le> 1" by (simp add: power_int_minus_divide)
  with assms(2) have b: "power_int 2 (- 1022) \<le> B" by linarith
  from assms(1) b assms(3) show ?thesis by (rule d_round_rel)
qed

lemma d_round_sandwich:
  assumes "of_int a \<le> x" "x \<le> of_int b" "\<bar>x\<bar> < 2 ^ 53"
  shows "d_round x = Some (rne x) \<and> of_int a \<le> rne x \<and> rne x \<le> of_int b"
proof -
  have lo: "rat_of_int (- (2 ^ 53)) \<le> x" and hi: "x \<le> rat_of_int (2 ^ 53)"
    using assms(3) by (simp_all add: abs_less_iff)
  from rne_sandwich [OF lo hi assms(3)] have "\<bar>rne x\<bar> \<le> 2 ^ 53" by (simp add: abs_le_iff)
  moreover have "(2::rat) ^ 53 < 2 ^ 1024" by simp
  ultimately have "\<bar>rne x\<bar> < 2 ^ 1024" by linarith
  then have "d_round x = Some (rne x)" by (rule d_round_finite)
  with rne_sandwich [OF assms] show ?thesis by simp
qed

lemma d_round_int:
  assumes "\<bar>k\<bar> < 2 ^ 53"
  shows "d_round (of_int k) = Some (of_int k)"
proof -
  from assms have "\<bar>rat_of_int k\<bar> < rat_of_int (2 ^ 53)" by (simp only: of_int_abs [symmetric] of_int_less_iff)
  then have "\<bar>rat_of_int k\<bar> < 2 ^ 53" by simp
  from d_round_sandwich [OF order_refl order_refl this] show ?thesis by simp
qed

lemma d_ops [simp]:
  "d_add (Some x) (Some y) = d_round (x + y)"
  "d_sub (Some x) (Some y) = d_round (x - y)"
  "d_mul (Some x) (Some y) = d_round (x * y)"
  "y \<noteq> 0 \<Longrightarrow> d_div (Some x) (Some y) = d_round (x / y)"
  "d_rem360 (Some x) = Some (js_rem x 360)"
  by (simp_all add: d_add_def d_sub_def d_mul_def d_div_def d_rem360_def)

text \<open>The two rounding lemmas with the power \<open>2 ^ 53\<close> written out, for linear arithmetic.\<close>

lemma d_round_lin:
  assumes "\<bar>x\<bar> \<le> B" "1 \<le> B" "B \<le> 1000000000000000000"
  shows "d_round x = Some (rne x) \<and> \<bar>rne x - x\<bar> \<le> B / 9007199254740992"
proof -
  have "(1000000000000000000::rat) \<le> 2 ^ 1000" by simp
  with assms(3) have "B \<le> 2 ^ 1000" by linarith
  from d_round_err [OF assms(1,2) this] show ?thesis by simp
qed

lemma d_round_between:
  assumes "of_int a \<le> x" "x \<le> of_int b" "\<bar>x\<bar> < 9007199254740992"
  shows "d_round x = Some (rne x) \<and> of_int a \<le> rne x \<and> rne x \<le> of_int b"
proof -
  from assms(3) have "\<bar>x\<bar> < 2 ^ 53" by simp
  from d_round_sandwich [OF assms(1,2) this] show ?thesis .
qed

text \<open>The current orientation in doubles: one rounded addition between two exact
  remainders.\<close>

lemma current_d_range:
  "\<exists>c. current_d (Some r) = Some c \<and> 0 \<le> c \<and> c < 360"
proof -
  let ?x = "js_rem r 360 + 360"
  have rg: "- 360 < js_rem r 360 \<and> js_rem r 360 < 360" by (rule js_rem_range)
  then have a: "rat_of_int 0 \<le> ?x" and b: "?x \<le> rat_of_int 720" and c: "\<bar>?x\<bar> < 9007199254740992"
    by simp_all
  from d_round_between [OF a b c]
  have y: "d_round ?x = Some (rne ?x)" "0 \<le> rne ?x" by simp_all
  have "current_d (Some r) = Some (js_rem (rne ?x) 360)" by (simp add: current_d_def y(1))
  moreover have "0 \<le> js_rem (rne ?x) 360 \<and> js_rem (rne ?x) 360 < 360"
    using mod360_bounds [of "rne ?x"] y(2) by (simp add: js_rem_nonneg)
  ultimately show ?thesis by simp
qed

text \<open>The midpoint of the winner's slice in doubles, against the exact midpoint.\<close>

lemma winnerAngle_d_err:
  assumes "0 < length its" "length its < 2 ^ 32" "0 \<le> i" "i < int (length its)"
  shows "\<exists>wa. winnerAngle_d its i = Some wa
     \<and> \<bar>wa - (of_int i * 360 / of_nat (length its) + 180 / of_nat (length its))\<bar> \<le> 2332 / 9007199254740992"
proof -
  let ?N = "rat_of_nat (length its)"
  define q where "q = 360 / ?N"
  define sa where "sa = rne q"
  define iq where "iq = rat_of_int i * q"
  have N1: "1 \<le> ?N"
  proof (cases its)
    case Nil
    with assms(1) show ?thesis by simp
  next
    case (Cons a list)
    then show ?thesis by simp
  qed
  then have N0: "0 < ?N" by linarith
  have "rat_of_nat (length its) < rat_of_nat (2 ^ 32)" using assms(2) by (simp only: of_nat_less_iff)
  then have N32: "?N < 4294967296" by simp
  have "\<bar>int (length its)\<bar> < 2 ^ 53" using assms(2) by simp
  from d_round_int [OF this] have len: "d_round ?N = Some ?N" by simp
  have q0: "0 < q" using N0 by (simp add: q_def)
  have "360 \<le> 360 * ?N" using N1 by simp
  then have q360: "q \<le> 360" unfolding q_def using N0 by (simp only: pos_divide_le_eq)
  have "?N \<le> 360 * 4294967296" using N32 by simp
  then have "1 / 4294967296 \<le> q" unfolding q_def using N0 by (simp add: pos_le_divide_eq)
  moreover have "power_int (2::rat) (- 1022) \<le> power_int 2 (- 32)"
    by (intro power_int_increasing) simp_all
  ultimately have qlo: "power_int 2 (- 1022) \<le> q" by (simp add: power_int_minus_divide)
  have qa: "\<bar>q\<bar> \<le> q" using q0 by simp
  have q1000: "q \<le> 2 ^ 1000" using q360 by simp
  from d_round_rel [OF qa qlo q1000]
  have sa: "d_round q = Some sa" "\<bar>sa - q\<bar> \<le> q / 9007199254740992" by (simp_all add: sa_def)
  have slice: "sliceAngle_d its = Some sa"
    using assms(1) N0 sa(1) by (simp add: sliceAngle_d_def len q_def)
  have "\<bar>i\<bar> < 2 ^ 53" using assms(2,3,4) by simp
  from d_round_int [OF this] have idx: "d_round (of_int i) = Some (of_int i)" .
  have i0: "(0::rat) \<le> of_int i" using assms(3) by simp
  have iN: "rat_of_int i \<le> ?N" using assms(4) by (metis of_int_le_iff of_int_of_nat_eq less_imp_le)
  have iq: "iq \<le> 360"
  proof -
    have "of_int i * q \<le> ?N * q" using iN q0 by (intro mult_right_mono) simp_all
    also have "\<dots> = 360" using N0 by (simp add: q_def)
    finally show ?thesis by (simp only: iq_def)
  qed
  have iq0: "0 \<le> iq" using i0 q0 by (simp add: iq_def)
  have e1: "\<bar>of_int i * sa - iq\<bar> \<le> 360 / 9007199254740992"
  proof -
    have "of_int i * sa - of_int i * q = of_int i * (sa - q)"
      by (simp only: right_diff_distrib)
    then have "\<bar>of_int i * sa - of_int i * q\<bar> = \<bar>rat_of_int i\<bar> * \<bar>sa - q\<bar>"
      by (simp only: abs_mult)
    also have "\<dots> = of_int i * \<bar>sa - q\<bar>" using i0 by (simp only: abs_of_nonneg)
    also have "\<dots> \<le> of_int i * (q / 9007199254740992)" using sa(2) i0 by (intro mult_left_mono)
    also have "\<dots> = iq / 9007199254740992" by (simp add: iq_def)
    also have "\<dots> \<le> 360 / 9007199254740992" using iq by (intro divide_right_mono) simp_all
    finally show ?thesis by (simp only: iq_def)
  qed
  have pb: "\<bar>of_int i * sa\<bar> \<le> 512" using e1 iq iq0 by linarith
  from d_round_lin [OF pb]
  have p: "d_round (of_int i * sa) = Some (rne (of_int i * sa))"
    "\<bar>rne (of_int i * sa) - of_int i * sa\<bar> \<le> 512 / 9007199254740992" by simp_all
  let ?p = "rne (of_int i * sa)"
  have "q / 9007199254740992 \<le> 360 / 9007199254740992" using q360 by (intro divide_right_mono) simp_all
  with sa(2) have e2: "\<bar>sa / 2 - q / 2\<bar> \<le> 180 / 9007199254740992" by linarith
  have hb: "\<bar>sa / 2\<bar> \<le> 256" using e2 q0 q360 by linarith
  from d_round_lin [OF hb]
  have h: "d_round (sa / 2) = Some (rne (sa / 2))"
    "\<bar>rne (sa / 2) - sa / 2\<bar> \<le> 256 / 9007199254740992" by simp_all
  let ?h = "rne (sa / 2)"
  have sb: "\<bar>?p + ?h\<bar> \<le> 1024" using p(2) h(2) pb hb by linarith
  from d_round_lin [OF sb]
  have w: "d_round (?p + ?h) = Some (rne (?p + ?h))"
    "\<bar>rne (?p + ?h) - (?p + ?h)\<bar> \<le> 1024 / 9007199254740992" by simp_all
  have wa: "winnerAngle_d its i = Some (rne (?p + ?h))"
    by (simp add: winnerAngle_d_def slice idx p(1) h(1) w(1))
  have mid: "of_int i * 360 / ?N + 180 / ?N = iq + q / 2" by (simp add: iq_def q_def)
  have "\<bar>rne (?p + ?h) - (iq + q / 2)\<bar> \<le> 2332 / 9007199254740992"
    using w(2) p(2) h(2) e1 e2 by linarith
  with wa mid show ?thesis by simp
qed

text \<open>Lines 72 to 75 in doubles: the delta lies between \<open>spins\<close> and \<open>spins + 1\<close> turns,
  both ends included, and lands on the winner's midpoint up to the rounding error.\<close>

lemma deltaForward_d_analysis:
  assumes "0 < length its" "length its < 2 ^ 32" "0 \<le> i" "i < int (length its)"
    and "0 \<le> n" "n < 2 ^ 44"
  shows "\<exists>c d. current_d (Some r) = Some c \<and> 0 \<le> c \<and> c < 360
     \<and> deltaForward_d its i (Some r) n = Some d
     \<and> of_int n * 360 \<le> d \<and> d \<le> (of_int n + 1) * 360
     \<and> (\<exists>k::int. \<bar>c + d - (360 - (of_int i * 360 / of_nat (length its) + 180 / of_nat (length its)))
            - 360 * of_int k\<bar> \<le> (of_int n + 2) / 2 ^ 40)"
proof -
  define W where "W = of_int i * 360 / rat_of_nat (length its) + 180 / rat_of_nat (length its)"
  define nn where "nn = rat_of_int n"
  define B where "B = 360 * nn + 1440"
  have n0: "0 \<le> nn" using assms(5) by (simp add: nn_def)
  have "rat_of_int n < rat_of_int (2 ^ 44)" using assms(6) by (simp only: of_int_less_iff)
  then have n44: "nn < 17592186044416" by (simp add: nn_def)
  from current_d_range [of r] obtain c where c: "current_d (Some r) = Some c" "0 \<le> c" "c < 360"
    by blast
  from winnerAngle_d_err [OF assms(1-4)] obtain wa where
    wa: "winnerAngle_d its i = Some wa" "\<bar>wa - W\<bar> \<le> 2332 / 9007199254740992" unfolding W_def by blast
  have W0: "0 \<le> W" using assms(3) by (simp add: W_def)
  have W360: "W \<le> 540"
  proof -
    have N1: "1 \<le> rat_of_nat (length its)"
    proof (cases its)
      case Nil
      with assms(1) show ?thesis by simp
    next
      case (Cons a list)
      then show ?thesis by simp
    qed
    then have N0: "0 < rat_of_nat (length its)" by linarith
    have "rat_of_int i \<le> rat_of_nat (length its)"
      using assms(4) by (metis of_int_le_iff of_int_of_nat_eq less_imp_le)
    then have "of_int i * 360 \<le> 360 * rat_of_nat (length its)" by simp
    then have "of_int i * 360 / rat_of_nat (length its) \<le> 360"
      using N0 by (simp only: pos_divide_le_eq)
    moreover have "180 \<le> 180 * rat_of_nat (length its)" using N1 by simp
    then have "180 / rat_of_nat (length its) \<le> 180" using N0 by (simp only: pos_divide_le_eq)
    ultimately show ?thesis unfolding W_def by linarith
  qed
  \<comment> \<open>\<open>360 - winnerAngle\<close>\<close>
  have wa1: "\<bar>wa - W\<bar> \<le> 1" using wa(2) by linarith
  have b1: "\<bar>360 - wa\<bar> \<le> 1024" using wa1 W0 W360 by linarith
  define e1 where "e1 = rne (360 - wa)"
  from d_round_lin [OF b1]
  have e1: "d_round (360 - wa) = Some e1" "\<bar>e1 - (360 - wa)\<bar> \<le> 1024 / 9007199254740992"
    by (simp_all add: e1_def)
  have e11: "\<bar>e1 - (360 - wa)\<bar> \<le> 1" using e1(2) by linarith
  have e1b: "- 182 \<le> e1" "e1 \<le> 362" using wa1 e11 W0 W360 by linarith+
  \<comment> \<open>\<open>spins * 360\<close>\<close>
  have "\<bar>n\<bar> < 2 ^ 53" using assms(5,6) by simp
  from d_round_int [OF this] have dn: "d_round (rat_of_int n) = Some nn" by (simp only: nn_def)
  have "\<bar>n * 360\<bar> < 2 ^ 53" using assms(5,6) by simp
  from d_round_int [OF this] have m: "d_round (nn * 360) = Some (nn * 360)" by (simp add: nn_def)
  \<comment> \<open>\<open>targetAbs\<close>\<close>
  have B1: "1 \<le> B" using n0 by (simp add: B_def)
  have B2: "B \<le> 1000000000000000000" using n44 by (simp add: B_def)
  have B3: "B / 9007199254740992 \<le> 1" using n44 by (simp add: B_def)
  have b2: "\<bar>nn * 360 + e1\<bar> \<le> B" using e1b n0 B_def by linarith
  define ta where "ta = rne (nn * 360 + e1)"
  from d_round_lin [OF b2 B1 B2]
  have ta: "d_round (nn * 360 + e1) = Some ta" "\<bar>ta - (nn * 360 + e1)\<bar> \<le> B / 9007199254740992"
    by (simp_all add: ta_def)
  have ta1: "\<bar>ta - (nn * 360 + e1)\<bar> \<le> 1" using ta(2) B3 by linarith
  have tabs: "targetAbs_d its i n = Some ta"
    by (simp add: targetAbs_d_def dn m wa(1) e1(1) ta(1))
  \<comment> \<open>\<open>targetAbs - current\<close>\<close>
  have b3: "\<bar>ta - c\<bar> \<le> B" using ta1 e1b n0 c(2,3) B_def by linarith
  define t1 where "t1 = rne (ta - c)"
  from d_round_lin [OF b3 B1 B2]
  have t1: "d_round (ta - c) = Some t1" "\<bar>t1 - (ta - c)\<bar> \<le> B / 9007199254740992" by (simp_all add: t1_def)
  \<comment> \<open>the two remainders around \<open>+ 360\<close>\<close>
  define k1 where "k1 = rat_of_int (trunc (t1 / 360))"
  define r1 where "r1 = js_rem t1 360"
  have rg: "- 360 < r1 \<and> r1 < 360" unfolding r1_def by (rule js_rem_range)
  then have s1: "rat_of_int 0 \<le> r1 + 360" and s2: "r1 + 360 \<le> rat_of_int 720"
    and s3: "\<bar>r1 + 360\<bar> < 9007199254740992" and s4: "\<bar>r1 + 360\<bar> \<le> 1024" by simp_all
  define r2 where "r2 = rne (r1 + 360)"
  from d_round_between [OF s1 s2 s3] d_round_lin [OF s4]
  have r2: "d_round (r1 + 360) = Some r2" "0 \<le> r2" "\<bar>r2 - (r1 + 360)\<bar> \<le> 1024 / 9007199254740992"
    by (simp_all add: r2_def)
  define k2 where "k2 = rat_of_int (trunc (r2 / 360))"
  define r3 where "r3 = js_rem r2 360"
  have r3: "0 \<le> r3" "r3 < 360"
    using mod360_bounds [of r2] r2(2) by (simp_all add: r3_def js_rem_nonneg)
  \<comment> \<open>the last addition\<close>
  have u1: "rat_of_int (n * 360) \<le> r3 + nn * 360" using r3(1) by (simp add: nn_def)
  have u2: "r3 + nn * 360 \<le> rat_of_int ((n + 1) * 360)" using r3(2) by (simp add: nn_def)
  have u3: "\<bar>r3 + nn * 360\<bar> < 9007199254740992" using r3 n0 n44 by linarith
  have u4: "\<bar>r3 + nn * 360\<bar> \<le> B" using r3 n0 B_def by linarith
  define d where "d = rne (r3 + nn * 360)"
  from d_round_between [OF u1 u2 u3] d_round_lin [OF u4 B1 B2]
  have d: "d_round (r3 + nn * 360) = Some d" "nn * 360 \<le> d" "d \<le> (nn + 1) * 360"
    "\<bar>d - (r3 + nn * 360)\<bar> \<le> B / 9007199254740992" by (simp_all add: d_def nn_def)
  have delta: "deltaForward_d its i (Some r) n = Some d"
    using tabs c(1) t1(1) r2(1) dn m d(1) by (simp add: deltaForward_d_def r1_def r3_def)
  \<comment> \<open>the error adds up modulo 360\<close>
  have q1: "r1 = t1 - 360 * k1" by (simp add: r1_def k1_def js_rem_def)
  have q2: "r3 = r2 - 360 * k2" by (simp add: r3_def k2_def js_rem_def)
  define E where "E = 3 * (B / 9007199254740992) + 4380 / 9007199254740992"
  define X where "X = c + d - (360 - W) - (720 * nn + 360 - 360 * k1 - 360 * k2)"
  have l1: "r3 + nn * 360 - B / 9007199254740992 \<le> d" and h1: "d \<le> r3 + nn * 360 + B / 9007199254740992"
    using d(4) by linarith+
  have l2: "r1 + 360 - 1024 / 9007199254740992 \<le> r2" and h2: "r2 \<le> r1 + 360 + 1024 / 9007199254740992"
    using r2(3) by linarith+
  have l3: "ta - c - B / 9007199254740992 \<le> t1" and h3: "t1 \<le> ta - c + B / 9007199254740992"
    using t1(2) by linarith+
  have l4: "nn * 360 + e1 - B / 9007199254740992 \<le> ta" and h4: "ta \<le> nn * 360 + e1 + B / 9007199254740992"
    using ta(2) by linarith+
  have l5: "360 - wa - 1024 / 9007199254740992 \<le> e1" and h5: "e1 \<le> 360 - wa + 1024 / 9007199254740992"
    using e1(2) by linarith+
  have l6: "W - 2332 / 9007199254740992 \<le> wa" and h6: "wa \<le> W + 2332 / 9007199254740992"
    using wa(2) by linarith+
  have "X \<le> E" unfolding X_def E_def using q1 q2 h1 h2 h3 h4 h5 l6 by linarith
  moreover have "- E \<le> X" unfolding X_def E_def using q1 q2 l1 l2 l3 l4 l5 h6 by linarith
  ultimately have XE: "\<bar>X\<bar> \<le> E" by linarith
  have "E = (1080 * nn + 8700) / 9007199254740992" by (simp add: E_def B_def add_divide_distrib)
  moreover have "(nn + 2) / 2 ^ 40 = (8192 * nn + 16384) / 9007199254740992" by (simp add: add_divide_distrib)
  moreover have "1080 * nn + 8700 \<le> 8192 * nn + 16384" using n0 by linarith
  then have "(1080 * nn + 8700) / 9007199254740992 \<le> (8192 * nn + 16384) / 9007199254740992"
    by (rule divide_right_mono) simp
  ultimately have "E \<le> (nn + 2) / 2 ^ 40" by (simp only:)
  with XE have "\<bar>X\<bar> \<le> (nn + 2) / 2 ^ 40" by linarith
  moreover have "X = c + d - (360 - W) - 360 * (2 * nn + 1 - k1 - k2)"
    by (simp add: X_def)
  ultimately have "\<bar>c + d - (360 - W) - 360 * (2 * nn + 1 - k1 - k2)\<bar> \<le> (nn + 2) / 2 ^ 40"
    by simp
  moreover have "2 * nn + 1 - k1 - k2
      = rat_of_int (2 * n + 1 - trunc (t1 / 360) - trunc (r2 / 360))"
    by (simp add: nn_def k1_def k2_def)
  ultimately have "\<exists>k::int. \<bar>c + d - (360 - W) - 360 * of_int k\<bar> \<le> (nn + 2) / 2 ^ 40"
    by metis
  with c delta d(2,3) show ?thesis unfolding W_def nn_def by blast
qed

section \<open>The claims\<close>


text \<open>
  C3. \<open>reset\<close> during a spin leaves rotation 0, phase \<open>Idle\<close> and no selected id, but it
  cancels neither the queued frame callback nor a registered listener. With \<open>reset\<close>
  between \<open>spinTo\<close> and the animation frame, the frame callback still starts the
  transition, and at its end \<open>onDone\<close> is called with \<open>C\<close> and \<open>C\<close> is selected. With
  \<open>reset\<close> after the frame, the listener of the abandoned spin stays on the element and
  is served by the end of the next spin's transition: \<open>onDone\<close> is called with \<open>C\<close>
  and then with \<open>B\<close>.
\<close>

theorem reset_leaves_completion_pending:
  "phase (run four [SpinTo ''C'' None] initial) = Spinning
   \<and> rotation (run four [SpinTo ''C'' None, Reset] initial) = 0
   \<and> phase (run four [SpinTo ''C'' None, Reset] initial) = Idle
   \<and> selectedId (run four [SpinTo ''C'' None, Reset] initial) = None
   \<and> frames (run four [SpinTo ''C'' None, Reset] initial)
       = [\<lparr> cb_durationMs = 4800, cb_nextRotation = 2295, cb_winnerId = ''C'' \<rparr>]
   \<and> doneCalls (run four [SpinTo ''C'' None, Reset, Frame, TransitionEnd] initial) = [''C'']
   \<and> selectedId (run four [SpinTo ''C'' None, Reset, Frame, TransitionEnd] initial) = Some ''C''
   \<and> rotation (run four [SpinTo ''C'' None, Reset, Frame, TransitionEnd] initial) = 2295
   \<and> phase mid_spin = Spinning
   \<and> listeners (run four [Reset] mid_spin) = [\<lparr> l_nextRotation = 2295, l_winnerId = ''C'' \<rparr>]
   \<and> phase (run four [Reset] mid_spin) = Idle
   \<and> doneCalls (run four [Reset, SpinTo ''B'' None, Frame, TransitionEnd] mid_spin) = [''C'', ''B'']"
  by code_simp

text \<open>
  C4, as stated, fails: in the middle of the spin to \<open>C\<close> (phase \<open>Spinning\<close>) a
  \<open>spinTo\<close> to \<open>D\<close> changes the state. It computes the new target 4725 from the
  rotation 2295 and queues a frame callback; the next frame moves the rotation to 4725
  and registers a second listener.
\<close>

theorem spinTo_while_spinning_counterexample:
  "phase mid_spin = Spinning
   \<and> spinTo four ''D'' None mid_spin \<noteq> mid_spin
   \<and> frames mid_spin = []
   \<and> frames (spinTo four ''D'' None mid_spin)
       = [\<lparr> cb_durationMs = 4800, cb_nextRotation = 4725, cb_winnerId = ''D'' \<rparr>]
   \<and> rotation mid_spin = 2295
   \<and> rotation (run four [SpinTo ''D'' None, Frame] mid_spin) = 4725
   \<and> length (listeners (run four [SpinTo ''D'' None, Frame] mid_spin)) = 2"
  by code_simp

text \<open>
  C4, amended. \<open>spinTo\<close> has no guard on the phase. In a state with phase \<open>Spinning\<close>, a
  call with a target id among the items is carried out as in any other phase: it queues
  one more frame callback with the target rotation \<open>rotation + d\<close> and the id, and so
  changes the state; the call itself leaves the rotation, the selected id and the phase
  \<open>Spinning\<close> as they are.
\<close>

theorem spinTo_has_no_phase_guard:
  assumes "phase s = Spinning" "w \<in> set (map id' (items p))"
    and "deltaForward (items p) (findIndex (\<lambda>it. id' it = w) (items p)) (rotation s) (spins_of opts) = d"
  shows "spinTo p w opts s = s\<lparr> frames := frames s @ [\<lparr> cb_durationMs = durationMs_of opts,
               cb_nextRotation = rotation s + d, cb_winnerId = w \<rparr>] \<rparr>
     \<and> spinTo p w opts s \<noteq> s
     \<and> phase (spinTo p w opts s) = Spinning
     \<and> rotation (spinTo p w opts s) = rotation s
     \<and> selectedId (spinTo p w opts s) = selectedId s
     \<and> spinTo p w opts s = spinTo p w opts (s\<lparr> spinning := False \<rparr>)"
proof -
  from assms(1) have sp: "spinning s" by (simp add: phase_def split: if_splits option.splits)
  have k: "spinTo p w opts s = s\<lparr> spinning := True, frames := frames s @ [\<lparr> cb_durationMs = durationMs_of opts,
               cb_nextRotation = rotation s + d, cb_winnerId = w \<rparr>] \<rparr>"
    using spinTo_known [OF assms(2), of opts s] assms(3) by simp
  have k': "spinTo p w opts (s\<lparr> spinning := False \<rparr>) = s\<lparr> spinning := True, frames := frames s @ [\<lparr> cb_durationMs = durationMs_of opts,
               cb_nextRotation = rotation s + d, cb_winnerId = w \<rparr>] \<rparr>"
    using spinTo_known [OF assms(2), of opts "s\<lparr> spinning := False \<rparr>"] assms(3) by simp
  have 1: "spinTo p w opts s = s\<lparr> frames := frames s @ [\<lparr> cb_durationMs = durationMs_of opts,
               cb_nextRotation = rotation s + d, cb_winnerId = w \<rparr>] \<rparr>"
    using k sp by simp
  have "frames (spinTo p w opts s) \<noteq> frames s" by (simp add: 1)
  then have 2: "spinTo p w opts s \<noteq> s" by auto
  have 3: "phase (spinTo p w opts s) = Spinning" by (simp add: k phase_def)
  from 1 2 3 k k' show ?thesis by simp
qed

text \<open>The theorem in the middle of the spin to \<open>C\<close>, with the target \<open>D\<close>.\<close>

theorem spinTo_has_no_phase_guard_witness:
  "phase mid_spin = Spinning \<and> ''D'' \<in> set (map id' (items four))
   \<and> deltaForward (items four) (findIndex (\<lambda>it. id' it = ''D'') (items four)) (rotation mid_spin)
        (spins_of None) = 2430
   \<and> spinTo four ''D'' None mid_spin = mid_spin\<lparr> frames := frames mid_spin @
        [\<lparr> cb_durationMs = durationMs_of None, cb_nextRotation = rotation mid_spin + 2430,
           cb_winnerId = ''D'' \<rparr>] \<rparr>
   \<and> phase (spinTo four ''D'' None mid_spin) = Spinning"
proof -
  have h1: "phase mid_spin = Spinning" by code_simp
  have h2: "''D'' \<in> set (map id' (items four))" by code_simp
  have h3: "deltaForward (items four) (findIndex (\<lambda>it. id' it = ''D'') (items four)) (rotation mid_spin)
        (spins_of None) = 2430" by code_simp
  from spinTo_has_no_phase_guard [OF h1 h2 h3] h1 h2 h3 show ?thesis by blast
qed

text \<open>
  C5. A \<open>spinTo\<close> whose target id is not among the items, or that is made with an empty
  item list, changes nothing: the state is returned as it is, so the phase, the rotation
  and the selected id are untouched, and neither a frame callback nor a listener is
  queued.
\<close>

theorem spinTo_bad_target_noop:
  assumes "w \<notin> set (map id' (items p)) \<or> items p = []"
  shows "spinTo p w opts s = s
     \<and> phase (spinTo p w opts s) = phase s
     \<and> rotation (spinTo p w opts s) = rotation s
     \<and> selectedId (spinTo p w opts s) = selectedId s
     \<and> frames (spinTo p w opts s) = frames s
     \<and> listeners (spinTo p w opts s) = listeners s
     \<and> doneCalls (spinTo p w opts s) = doneCalls s"
proof -
  from assms have "items p = [] \<or> w \<notin> set (map id' (items p))" by blast
  then have "spinTo p w opts s = s" by (rule spinTo_unknown)
  then show ?thesis by simp
qed

text \<open>The theorem in the middle of a spin, once with an unknown id and once with no items.\<close>

theorem spinTo_bad_target_noop_witness:
  "''Z'' \<notin> set (map id' (items four))
   \<and> spinTo four ''Z'' None mid_spin = mid_spin
   \<and> items (four\<lparr> items := [] \<rparr>) = []
   \<and> spinTo (four\<lparr> items := [] \<rparr>) ''A'' None mid_spin = mid_spin"
proof -
  have h1: "''Z'' \<notin> set (map id' (items four))" by code_simp
  have h2: "items (four\<lparr> items := [] \<rparr>) = []" by simp
  from spinTo_bad_target_noop [of "''Z''" four None mid_spin]
    spinTo_bad_target_noop [of "''A''" "four\<lparr> items := [] \<rparr>" None mid_spin] h1 h2
  show ?thesis by blast
qed




text \<open>
  C7. The scenario of the four items \<open>[A, B, C, D]\<close>: slices of 90 degrees, rotation 0,
  target \<open>C\<close> at index 2 with midpoint 225, six spins. The delta is
  \<open>6 * 360 + (360 - 225) mod 360 = 2295\<close>, and after the spin has settled the selected id
  is \<open>C\<close>.
\<close>

theorem scenario_four_items:
  "length (items four) = 4
   \<and> sliceAngle (items four) = 90
   \<and> rotation initial = 0
   \<and> findIndex (\<lambda>it. id' it = ''C'') (items four) = 2
   \<and> winnerAngle (items four) 2 = 225
   \<and> js_rem (360 - 225) 360 = 135
   \<and> deltaForward (items four) 2 (rotation initial) 6 = 6 * 360 + 135
   \<and> deltaForward (items four) 2 (rotation initial) 6 = 2295
   \<and> frames (run four [SpinTo ''C'' (Some \<lparr> spins = Some 6, durationMs = Some 4800 \<rparr>)] initial)
       = [\<lparr> cb_durationMs = 4800, cb_nextRotation = 2295, cb_winnerId = ''C'' \<rparr>]
   \<and> selectedId (run four [SpinTo ''C'' (Some \<lparr> spins = Some 6, durationMs = Some 4800 \<rparr>),
         Frame, TransitionEnd] initial) = Some ''C''
   \<and> phase (run four [SpinTo ''C'' (Some \<lparr> spins = Some 6, durationMs = Some 4800 \<rparr>),
         Frame, TransitionEnd] initial) = Settled"
  by code_simp

text \<open>
  C8. \<open>reset\<close> is idempotent: in every state, a second \<open>reset\<close> changes nothing, and the
  state after \<open>reset\<close> has rotation 0, phase \<open>Idle\<close> and no selected id. It is defined in
  every phase and calls no completion.
\<close>

theorem reset_idempotent:
  "reset (reset s) = reset s
   \<and> rotation (reset s) = 0 \<and> phase (reset s) = Idle \<and> selectedId (reset s) = None
   \<and> spinning (reset s) = False
   \<and> doneCalls (reset s) = doneCalls s"
  by (simp add: reset_def phase_def)

text \<open>
  C9, as stated, fails in its last part: after two spins with the default six turns the
  wheel has settled at the rotation 4545, which is not in \<open>[0, 360)\<close>.
\<close>

theorem settled_rotation_range_counterexample:
  "list_all nonneg_spins [SpinTo ''C'' None, Frame, TransitionEnd, SpinTo ''B'' None, Frame, TransitionEnd]
   \<and> phase (run four [SpinTo ''C'' None, Frame, TransitionEnd, SpinTo ''B'' None, Frame,
        TransitionEnd] initial) = Settled
   \<and> rotation (run four [SpinTo ''C'' None, Frame, TransitionEnd, SpinTo ''B'' None, Frame,
        TransitionEnd] initial) = 4545
   \<and> \<not> (0 \<le> rotation (run four [SpinTo ''C'' None, Frame, TransitionEnd, SpinTo ''B'' None, Frame,
        TransitionEnd] initial)
      \<and> rotation (run four [SpinTo ''C'' None, Frame, TransitionEnd, SpinTo ''B'' None, Frame,
        TransitionEnd] initial) < 360)"
  by code_simp

text \<open>
  C9, amended. From the initial state, every sequence of \<open>spinTo\<close> calls with spin counts
  \<open>\<ge> 0\<close>, animation frames, transition ends and \<open>reset\<close> calls keeps the rotation
  \<open>\<ge> 0\<close>, and every target rotation held by a registered listener is \<open>\<ge> 0\<close> too.
  Hence both remainders of the settle step are true residues modulo 360, and the rotation
  after a settle step is \<open>\<ge> 0\<close>. (It is not confined to \<open>[0, 360)\<close>.)
\<close>

theorem rotation_nonneg_invariant:
  assumes "list_all nonneg_spins evs"
  shows "0 \<le> rotation (run p evs initial)
     \<and> js_rem (rotation (run p evs initial)) 360 = mod360 (rotation (run p evs initial))
     \<and> list_all (\<lambda>l. 0 \<le> l_nextRotation l) (listeners (run p evs initial))
     \<and> list_all (\<lambda>l. js_rem (l_nextRotation l) 360 = mod360 (l_nextRotation l))
          (listeners (run p evs initial))
     \<and> 0 \<le> rotation (transitionend p (run p evs initial))"
proof -
  have inv: "nonneg_state (run p evs initial)"
    using nonneg_state_initial assms by (rule nonneg_state_run)
  then have 1: "0 \<le> rotation (run p evs initial)" by (simp add: nonneg_state_def)
  from inv have 2: "list_all (\<lambda>l. 0 \<le> l_nextRotation l) (listeners (run p evs initial))"
    by (simp add: nonneg_state_def)
  from 2 have 3: "list_all (\<lambda>l. js_rem (l_nextRotation l) 360 = mod360 (l_nextRotation l))
          (listeners (run p evs initial))"
    by (rule list.pred_mono_strong) (simp add: js_rem_nonneg)
  from inv have "nonneg_state (transitionend p (run p evs initial))"
    by (rule nonneg_state_transitionend)
  then have 4: "0 \<le> rotation (transitionend p (run p evs initial))" by (simp add: nonneg_state_def)
  from 1 2 3 4 show ?thesis by (simp add: js_rem_nonneg)
qed

text \<open>The theorem on a run of seven items with a \<open>reset\<close> between a \<open>spinTo\<close> and its
  frame.\<close>

theorem rotation_nonneg_invariant_witness:
  "list_all nonneg_spins [SpinTo ''F'' (Some \<lparr> spins = Some 0, durationMs = None \<rparr>), Frame,
      TransitionEnd, SpinTo ''B'' None, Reset, Frame, SpinTo ''C'' None, Frame]
   \<and> rotation (run seven [SpinTo ''F'' (Some \<lparr> spins = Some 0, durationMs = None \<rparr>), Frame,
      TransitionEnd, SpinTo ''B'' None, Reset, Frame, SpinTo ''C'' None, Frame] initial) = 34380 / 7
   \<and> 0 \<le> rotation (run seven [SpinTo ''F'' (Some \<lparr> spins = Some 0, durationMs = None \<rparr>), Frame,
      TransitionEnd, SpinTo ''B'' None, Reset, Frame, SpinTo ''C'' None, Frame] initial)"
proof -
  have h: "list_all nonneg_spins [SpinTo ''F'' (Some \<lparr> spins = Some 0, durationMs = None \<rparr>), Frame,
      TransitionEnd, SpinTo ''B'' None, Reset, Frame, SpinTo ''C'' None, Frame]" by code_simp
  have v: "rotation (run seven [SpinTo ''F'' (Some \<lparr> spins = Some 0, durationMs = None \<rparr>), Frame,
      TransitionEnd, SpinTo ''B'' None, Reset, Frame, SpinTo ''C'' None, Frame] initial) = 34380 / 7"
    by code_simp
  from rotation_nonneg_invariant [OF h, of seven] h v show ?thesis by blast
qed

end
